theory Spec2Isabelle
  imports Main "HOL-Library.Word" "HOL-Library.Char_ord" "HOL-Library.List_Lexorder"
begin

section \<open>Subscription.h: subscription identifiers\<close>

text \<open>
  A C++ \<^verbatim>\<open>char\<close> is one byte, modelled by \<^typ>\<open>char\<close>; a \<^verbatim>\<open>std::string_view\<close> or
  \<^verbatim>\<open>std::string\<close> is a \<^typ>\<open>string\<close>. Whether plain \<^verbatim>\<open>char\<close> is signed is fixed by the
  platform, not by the source; every function that compares or converts a \<^verbatim>\<open>char\<close> takes the
  platform's choice as the flag \<open>char_signed\<close>, and the results below hold for both choices.
\<close>

text \<open>
  Modelled from the spec: the constant \<^verbatim>\<open>MAX_SUBID_SIZE\<close> is declared in a header that
  Subscription.h includes and that is not at hand. The spec gives subscription ids 1--64
  bytes, and SubIdTests.cpp expects 64 bytes to be accepted and 65 to be refused.
\<close>

definition MAX_SUBID_SIZE :: nat where
  "MAX_SUBID_SIZE = 64"

datatype error = herr string

text \<open>The value of a \<^verbatim>\<open>char\<close> after integral promotion to \<^verbatim>\<open>int\<close>.\<close>

definition char_value :: "bool \<Rightarrow> char \<Rightarrow> int" where
  "char_value char_signed c =
     (if char_signed \<and> 128 \<le> (of_char c :: int) then of_char c - 256 else of_char c)"

text \<open>The conversion \<^verbatim>\<open>(char)n\<close> of a \<^verbatim>\<open>size_t\<close> keeps the low eight bits.\<close>

definition char_of_size_t :: "nat \<Rightarrow> char" where
  "char_of_size_t n = char_of (n mod 256)"

text \<open>The conversion \<^verbatim>\<open>(size_t)c\<close> of a \<^verbatim>\<open>char\<close>, with 64-bit \<^verbatim>\<open>size_t\<close>.\<close>

definition size_t_of_char :: "bool \<Rightarrow> char \<Rightarrow> nat" where
  "size_t_of_char char_signed c = nat (char_value char_signed c mod 2 ^ 64)"

text \<open>
  \<^verbatim>\<open>auto badChar = [](char c){ return c < 0x20 || c == '\\' || c == '"' || c >= 0x7F; };\<close>
\<close>

definition badChar :: "bool \<Rightarrow> char \<Rightarrow> bool" where
  "badChar char_signed c \<longleftrightarrow>
     char_value char_signed c < 0x20 \<or> c = CHR 0x5C \<or> c = CHR 0x22
     \<or> char_value char_signed c \<ge> 0x7F"

text \<open>\<^verbatim>\<open>struct SubId { char buf[MAX_SUBID_SIZE + 1]; ... }\<close>\<close>

record SubId =
  buf :: string

text \<open>\<^verbatim>\<open>memcpy(&dst[off], src.data(), src.size())\<close> on an array that holds the range.\<close>

definition memcpy :: "string \<Rightarrow> nat \<Rightarrow> string \<Rightarrow> string" where
  "memcpy dst off src = take off dst @ src @ drop (off + length src) dst"

text \<open>
  The constructor \<^verbatim>\<open>SubId(std::string_view val)\<close>. It does not initialise \<^verbatim>\<open>buf\<close>: \<open>mem\<close> is
  what the \<^verbatim>\<open>MAX_SUBID_SIZE + 1\<close> bytes of the object held before, and the bytes after the
  copied ones keep it. A \<^verbatim>\<open>throw\<close> is the result \<open>Inl\<close>.
\<close>

definition SubId_ctor :: "bool \<Rightarrow> string \<Rightarrow> string \<Rightarrow> error + SubId" where
  "SubId_ctor char_signed mem val =
     (if val = [] \<or> length val > MAX_SUBID_SIZE
      then Inl (herr ''invalid subscription id length'')
      else if list_ex (badChar char_signed) val
      then Inl (herr ''invalid character in subscription id'')
      else Inr \<lparr> buf = memcpy (mem[0 := char_of_size_t (length val)]) 1 val \<rparr>)"

text \<open>\<^verbatim>\<open>std::string_view(&buf[1], (size_t)buf[0])\<close>: the bytes \<^verbatim>\<open>buf[1 .. 1 + buf[0])\<close>.\<close>

definition sv :: "bool \<Rightarrow> SubId \<Rightarrow> string" where
  "sv char_signed s = take (size_t_of_char char_signed (buf s ! 0)) (drop 1 (buf s))"

definition str :: "bool \<Rightarrow> SubId \<Rightarrow> string" where
  "str char_signed s = sv char_signed s"

text \<open>\<^verbatim>\<open>bool operator==(const SubId &o) const { return o.sv() == sv(); }\<close>\<close>

definition SubId_eq :: "bool \<Rightarrow> SubId \<Rightarrow> SubId \<Rightarrow> bool" where
  "SubId_eq char_signed s o' \<longleftrightarrow> sv char_signed o' = sv char_signed s"

text \<open>
  \<^verbatim>\<open>std::hash<SubId>\<close> returns \<^verbatim>\<open>phmap::HashState().combine(0, p.sv())\<close>. The hash combiner
  belongs to the parallel-hashmap library and is a parameter here: a function of the seed
  and of the bytes viewed.
\<close>

definition hash_SubId :: "(64 word \<Rightarrow> string \<Rightarrow> 64 word) \<Rightarrow> bool \<Rightarrow> SubId \<Rightarrow> 64 word" where
  "hash_SubId combine char_signed p = combine 0 (sv char_signed p)"

text \<open>
  Modelled from the spec: the constant \<^verbatim>\<open>MAX_U64\<close> is declared in a header that is not at
  hand; it is the maximum 64-bit unsigned value.
\<close>

definition MAX_U64 :: "64 word" where
  "MAX_U64 = 0xFFFFFFFFFFFFFFFF"

text \<open>
  \<^verbatim>\<open>struct Subscription\<close>. The filter group type comes from filters.h and is left abstract.
  The state field \<^verbatim>\<open>latestEventId\<close> is what the spec calls \<open>latestQuadID\<close>.
\<close>

record 'f Subscription =
  connId :: "64 word"
  subId :: SubId
  filterGroup :: 'f
  ipAddr :: string
  latestEventId :: "64 word"

text \<open>
  The constructor: the member \<^verbatim>\<open>subId\<close> is built from the string by the \<^verbatim>\<open>SubId\<close>
  constructor, whose exception leaves the constructor; \<^verbatim>\<open>latestEventId\<close> takes its default
  member initialiser. The default argument \<^verbatim>\<open>ipAddr_ = ""\<close> is passed explicitly.
\<close>

definition Subscription_ctor ::
  "bool \<Rightarrow> string \<Rightarrow> 64 word \<Rightarrow> string \<Rightarrow> 'f \<Rightarrow> string \<Rightarrow> error + 'f Subscription" where
  "Subscription_ctor char_signed mem connId' subId' filterGroup' ipAddr' =
     (case SubId_ctor char_signed mem subId' of
        Inl e \<Rightarrow> Inl e
      | Inr sid \<Rightarrow>
          Inr \<lparr> connId = connId', subId = sid, filterGroup = filterGroup', ipAddr = ipAddr',
                latestEventId = MAX_U64 \<rparr>)"

text \<open>
  Modelled from the spec: the source of the ReqMonitor is not at hand. Its test before it
  evaluates a subscription against a committed event of the given quadID is
  \<open>latestQuadID < quadID\<close> (section 4.6).
\<close>

definition delivery_precondition :: "'f Subscription \<Rightarrow> 64 word \<Rightarrow> bool" where
  "delivery_precondition sub quadID \<longleftrightarrow> latestEventId sub < quadID"

text \<open>The bytes the spec allows in a subscription id.\<close>

definition allowed_byte :: "char \<Rightarrow> bool" where
  "allowed_byte c \<longleftrightarrow>
     0x20 \<le> (of_char c :: nat) \<and> (of_char c :: nat) \<le> 0x7E \<and> c \<noteq> CHR 0x22 \<and> c \<noteq> CHR 0x5C"

section \<open>PrometheusMetrics: counters with labels\<close>

text \<open>
  The class guards its map with a \<^verbatim>\<open>std::shared_mutex\<close> and its counters are atomics. The
  model is sequential: the member functions run one at a time, each to its end, and the
  locks are not modelled.

  A \<^verbatim>\<open>std::map<K, V>\<close> is the list of its entries in ascending key order, which is the order
  its iteration visits. \<^verbatim>\<open>std::string\<close> keys compare lexicographically by unsigned byte,
  the order of \<^typ>\<open>string\<close> here.
\<close>

type_synonym ('k, 'v) std_map = "('k \<times> 'v) list"

text \<open>\<^verbatim>\<open>find\<close>: the entry's value, or \<open>None\<close> for \<^verbatim>\<open>end()\<close>.\<close>

fun std_map_find :: "'k \<Rightarrow> ('k, 'v) std_map \<Rightarrow> 'v option" where
  "std_map_find k [] = None"
| "std_map_find k ((a, b) # ps) = (if k = a then Some b else std_map_find k ps)"

text \<open>
  \<^verbatim>\<open>operator[]\<close>: when the key is absent, an entry with the value-initialised \<open>d\<close> is
  inserted at its place in the order; the map is unchanged otherwise.
\<close>

fun std_map_subscript :: "'k::linorder \<Rightarrow> 'v \<Rightarrow> ('k, 'v) std_map \<Rightarrow> ('k, 'v) std_map" where
  "std_map_subscript k d [] = [(k, d)]"
| "std_map_subscript k d ((a, b) # ps) =
     (if k < a then (k, d) # (a, b) # ps
      else if k = a then (a, b) # ps
      else (a, b) # std_map_subscript k d ps)"

text \<open>A write through the reference or iterator to the entry of key \<open>k\<close>.\<close>

fun std_map_modify :: "'k \<Rightarrow> ('v \<Rightarrow> 'v) \<Rightarrow> ('k, 'v) std_map \<Rightarrow> ('k, 'v) std_map" where
  "std_map_modify k f [] = []"
| "std_map_modify k f ((a, b) # ps) =
     (if k = a then (a, f b) # ps else (a, b) # std_map_modify k f ps)"

text \<open>\<^verbatim>\<open>class Counter { std::atomic<uint64_t> value{0}; ... }\<close>\<close>

record Counter =
  counter_value :: "64 word"

definition Counter_init :: Counter where
  "Counter_init = \<lparr> counter_value = 0 \<rparr>"

text \<open>\<^verbatim>\<open>void inc(uint64_t n = 1) { value.fetch_add(n, ...); }\<close>: the addition wraps.\<close>

definition Counter_inc :: "Counter \<Rightarrow> 64 word \<Rightarrow> Counter" where
  "Counter_inc c n = c \<lparr> counter_value := counter_value c + n \<rparr>"

definition Counter_get :: "Counter \<Rightarrow> 64 word" where
  "Counter_get c = counter_value c"

text \<open>\<^verbatim>\<open>class LabeledCounter { std::map<std::string, Counter> counters; ... }\<close>\<close>

record LabeledCounter =
  counters :: "(string, Counter) std_map"

definition LabeledCounter_init :: LabeledCounter where
  "LabeledCounter_init = \<lparr> counters = [] \<rparr>"

text \<open>
  \<^verbatim>\<open>void inc(const std::string& label, uint64_t n = 1)\<close>: the counter found is incremented;
  otherwise \<^verbatim>\<open>counters[label].inc(n)\<close> creates it first.
\<close>

definition LabeledCounter_inc :: "LabeledCounter \<Rightarrow> string \<Rightarrow> 64 word \<Rightarrow> LabeledCounter" where
  "LabeledCounter_inc lc label n =
     (case std_map_find label (counters lc) of
        Some c \<Rightarrow> lc \<lparr> counters := std_map_modify label (\<lambda>c. Counter_inc c n) (counters lc) \<rparr>
      | None \<Rightarrow>
          lc \<lparr> counters := std_map_modify label (\<lambda>c. Counter_inc c n)
                 (std_map_subscript label Counter_init (counters lc)) \<rparr>)"

text \<open>
  \<^verbatim>\<open>getAll\<close>: a new \<^verbatim>\<open>std::map<std::string, uint64_t>\<close>, filled by
  \<^verbatim>\<open>result[label] = counter.get()\<close> for each entry in turn.
\<close>

definition LabeledCounter_getAll :: "LabeledCounter \<Rightarrow> (string, 64 word) std_map" where
  "LabeledCounter_getAll lc =
     fold (\<lambda>(label, counter) result.
             std_map_modify label (\<lambda>_. Counter_get counter) (std_map_subscript label 0 result))
          (counters lc) []"

text \<open>
  \<^verbatim>\<open>class PrometheusMetrics\<close>: three public labelled counters. Its constructor is private and
  defaulted, so a new object has three empty maps.
\<close>

record PrometheusMetrics =
  nostrClientMessages :: LabeledCounter
  nostrRelayMessages :: LabeledCounter
  nostrEventsByKind :: LabeledCounter

definition PrometheusMetrics_init :: PrometheusMetrics where
  "PrometheusMetrics_init =
     \<lparr> nostrClientMessages = LabeledCounter_init, nostrRelayMessages = LabeledCounter_init,
       nostrEventsByKind = LabeledCounter_init \<rparr>"

text \<open>\<^verbatim>\<open>out << count\<close> for a \<^verbatim>\<open>uint64_t\<close>: the decimal digits, without leading zeros.\<close>

fun show_decimal :: "nat \<Rightarrow> string" where
  "show_decimal n =
     (if n < 10 then [char_of (48 + n)]
      else show_decimal (n div 10) @ [char_of (48 + n mod 10)])"

definition show_uint64 :: "64 word \<Rightarrow> string" where
  "show_uint64 w = show_decimal (unat w)"

text \<open>
  One pass of a \<^verbatim>\<open>for\<close> loop of \<^verbatim>\<open>render\<close>:
  \<^verbatim>\<open>out << name << "{" << key << "=\"" << label << "\"} " << count << "\n"\<close>,
  where the source writes name and key in one literal. \<open>CHR 0x22\<close> is the double quote,
  \<open>CHR 0x0A\<close> the newline.
\<close>

definition emit_sample :: "string \<Rightarrow> string \<Rightarrow> string \<times> 64 word \<Rightarrow> string \<Rightarrow> string" where
  "emit_sample name key = (\<lambda>(label, count) out.
     out @ name @ ''{'' @ key @ ''='' @ [CHR 0x22] @ label @ [CHR 0x22] @ ''} ''
         @ show_uint64 count @ [CHR 0x0A])"

text \<open>\<^verbatim>\<open>std::string render() const\<close>: the stream \<^verbatim>\<open>out\<close> is the string written so far.\<close>

definition render :: "PrometheusMetrics \<Rightarrow> string" where
  "render pm =
     (let out = [];
          out = out @ ''# HELP nostr_client_messages_total Total number of Nostr client messages by verb'' @ [CHR 0x0A];
          out = out @ ''# TYPE nostr_client_messages_total counter'' @ [CHR 0x0A];
          clientMsgs = LabeledCounter_getAll (nostrClientMessages pm);
          out = fold (emit_sample ''nostr_client_messages_total'' ''verb'') clientMsgs out;
          out = out @ ''# HELP nostr_relay_messages_total Total number of Nostr relay messages by verb'' @ [CHR 0x0A];
          out = out @ ''# TYPE nostr_relay_messages_total counter'' @ [CHR 0x0A];
          relayMsgs = LabeledCounter_getAll (nostrRelayMessages pm);
          out = fold (emit_sample ''nostr_relay_messages_total'' ''verb'') relayMsgs out;
          out = out @ ''# HELP nostr_events_total Total number of Nostr events by kind'' @ [CHR 0x0A];
          out = out @ ''# TYPE nostr_events_total counter'' @ [CHR 0x0A];
          events = LabeledCounter_getAll (nostrEventsByKind pm);
          out = fold (emit_sample ''nostr_events_total'' ''kind'') events out
      in out)"

text \<open>
  The calls a client of the class can make on the three public members: each names the
  family, the label and the amount (\<open>1\<close> when the argument is left out, as in the macros
  \<^verbatim>\<open>PROM_INC_CLIENT_MSG\<close>, \<^verbatim>\<open>PROM_INC_RELAY_MSG\<close>, \<^verbatim>\<open>PROM_INC_EVENT_KIND\<close>).
\<close>

datatype metric_call =
  ClientMsg string "64 word"
| RelayMsg string "64 word"
| EventKind string "64 word"

fun apply_call :: "metric_call \<Rightarrow> PrometheusMetrics \<Rightarrow> PrometheusMetrics" where
  "apply_call (ClientMsg verb n) pm =
     pm \<lparr> nostrClientMessages := LabeledCounter_inc (nostrClientMessages pm) verb n \<rparr>"
| "apply_call (RelayMsg verb n) pm =
     pm \<lparr> nostrRelayMessages := LabeledCounter_inc (nostrRelayMessages pm) verb n \<rparr>"
| "apply_call (EventKind kind n) pm =
     pm \<lparr> nostrEventsByKind := LabeledCounter_inc (nostrEventsByKind pm) kind n \<rparr>"

text \<open>The \<open>(label, n)\<close> arguments a list of calls passes to each family, in call order.\<close>

fun client_incs :: "metric_call list \<Rightarrow> (string \<times> 64 word) list" where
  "client_incs [] = []"
| "client_incs (ClientMsg verb n # cs) = (verb, n) # client_incs cs"
| "client_incs (_ # cs) = client_incs cs"

fun relay_incs :: "metric_call list \<Rightarrow> (string \<times> 64 word) list" where
  "relay_incs [] = []"
| "relay_incs (RelayMsg verb n # cs) = (verb, n) # relay_incs cs"
| "relay_incs (_ # cs) = relay_incs cs"

fun event_incs :: "metric_call list \<Rightarrow> (string \<times> 64 word) list" where
  "event_incs [] = []"
| "event_incs (EventKind kind n # cs) = (kind, n) # event_incs cs"
| "event_incs (_ # cs) = event_incs cs"

text \<open>
  The text expected of \<^verbatim>\<open>render\<close> for one family, written from the increments made rather
  than from the map: the HELP and TYPE lines, then one sample line for each label
  incremented, in ascending order, with the sum of its increments.
\<close>

definition label_total :: "(string \<times> 64 word) list \<Rightarrow> string \<Rightarrow> 64 word" where
  "label_total incs label = sum_list (map snd (filter (\<lambda>(l, n). l = label) incs))"

definition sample_line :: "string \<Rightarrow> string \<Rightarrow> string \<Rightarrow> 64 word \<Rightarrow> string" where
  "sample_line name key label count =
     name @ ''{'' @ key @ ''='' @ [CHR 0x22] @ label @ [CHR 0x22] @ ''} ''
       @ show_uint64 count @ [CHR 0x0A]"

definition family_labels :: "(string \<times> 64 word) list \<Rightarrow> string list" where
  "family_labels incs = sorted_list_of_set (fst ` set incs)"

definition family_text ::
  "string \<Rightarrow> string \<Rightarrow> string \<Rightarrow> (string \<times> 64 word) list \<Rightarrow> string" where
  "family_text name help key incs =
     ''# HELP '' @ name @ '' '' @ help @ [CHR 0x0A]
     @ ''# TYPE '' @ name @ '' counter'' @ [CHR 0x0A]
     @ concat (map (\<lambda>label. sample_line name key label (label_total incs label))
                 (family_labels incs))"

text \<open>A finite sequence of \<^verbatim>\<open>inc(label, n)\<close> calls on one \<^verbatim>\<open>LabeledCounter\<close>, first call first.\<close>

fun inc_all :: "(string \<times> 64 word) list \<Rightarrow> LabeledCounter \<Rightarrow> LabeledCounter" where
  "inc_all [] lc = lc"
| "inc_all ((label, n) # incs) lc = inc_all incs (LabeledCounter_inc lc label n)"

text \<open>A finite sequence of calls on one \<^verbatim>\<open>PrometheusMetrics\<close> object.\<close>

fun run_calls :: "metric_call list \<Rightarrow> PrometheusMetrics \<Rightarrow> PrometheusMetrics" where
  "run_calls [] pm = pm"
| "run_calls (c # cs) pm = run_calls cs (apply_call c pm)"

subsection \<open>The singleton\<close>

text \<open>
  \<^verbatim>\<open>static PrometheusMetrics& getInstance() { static PrometheusMetrics instance; return instance; }\<close>

  A function-local static is one object for the whole process: storage that exists from
  the start, and a guard that tells whether the object has been constructed. The first call
  that finds the guard unset constructs the object and sets the guard. The process state
  holds both; the reference \<^verbatim>\<open>getInstance\<close> returns designates the field \<open>instance_storage\<close>.
  The class has a private constructor and no copy, so the process holds no other object of it.
\<close>

record process =
  instance_constructed :: bool
  instance_storage :: PrometheusMetrics

definition getInstance :: "process \<Rightarrow> process" where
  "getInstance p =
     (if instance_constructed p then p
      else p \<lparr> instance_storage := PrometheusMetrics_init, instance_constructed := True \<rparr>)"

text \<open>A call \<^verbatim>\<open>PrometheusMetrics::getInstance().m(...)\<close> of a member function that writes.\<close>

definition on_instance :: "(PrometheusMetrics \<Rightarrow> PrometheusMetrics) \<Rightarrow> process \<Rightarrow> process" where
  "on_instance m p = (let p' = getInstance p in p' \<lparr> instance_storage := m (instance_storage p') \<rparr>)"

text \<open>A call \<^verbatim>\<open>PrometheusMetrics::getInstance().m(...)\<close> of a \<^verbatim>\<open>const\<close> member function.\<close>

definition read_instance :: "(PrometheusMetrics \<Rightarrow> 'a) \<Rightarrow> process \<Rightarrow> 'a \<times> process" where
  "read_instance m p = (let p' = getInstance p in (m (instance_storage p'), p'))"

text \<open>
  \<^verbatim>\<open>#define PROM_INC_CLIENT_MSG(verb) PrometheusMetrics::getInstance().nostrClientMessages.inc(verb)\<close>
  and its two siblings.
\<close>

definition PROM_INC_CLIENT_MSG :: "string \<Rightarrow> process \<Rightarrow> process" where
  "PROM_INC_CLIENT_MSG verb = on_instance (apply_call (ClientMsg verb 1))"

definition PROM_INC_RELAY_MSG :: "string \<Rightarrow> process \<Rightarrow> process" where
  "PROM_INC_RELAY_MSG verb = on_instance (apply_call (RelayMsg verb 1))"

definition PROM_INC_EVENT_KIND :: "string \<Rightarrow> process \<Rightarrow> process" where
  "PROM_INC_EVENT_KIND kind = on_instance (apply_call (EventKind kind 1))"

text \<open>A sequence of increments, each made through a call of \<^verbatim>\<open>getInstance\<close> of its own.\<close>

fun process_calls :: "metric_call list \<Rightarrow> process \<Rightarrow> process" where
  "process_calls [] p = p"
| "process_calls (c # cs) p = process_calls cs (on_instance (apply_call c) p)"

section \<open>deploy.sh: the configuration file it installs\<close>

text \<open>
  Step 6 of deploy.sh writes \<^verbatim>\<open>/etc/strfry.conf\<close>, headed "Default strfry config", from a
  here-document in which \<^verbatim>\<open>${STRFRY_DB_DIR}\<close>, \<^verbatim>\<open>${HOST}\<close> and \<^verbatim>\<open>${ADMIN_EMAIL}\<close> are expanded.
  The file is modelled as the list of its settings in file order, each with the path of the
  sections that enclose it. \<^verbatim>\<open>HOST\<close> and \<^verbatim>\<open>ADMIN_EMAIL\<close> are the script's arguments.
\<close>

datatype cfg_value = CfgStr string | CfgNum nat | CfgBool bool

definition STRFRY_HOME :: string where
  "STRFRY_HOME = ''/var/lib/strfry''"

definition STRFRY_DB_DIR :: string where
  "STRFRY_DB_DIR = STRFRY_HOME @ ''/strfry-db''"

definition strfry_conf :: "string \<Rightarrow> string \<Rightarrow> (string list \<times> cfg_value) list" where
  "strfry_conf HOST ADMIN_EMAIL =
    [([''db''], CfgStr (STRFRY_DB_DIR @ ''/'')),
     ([''dbParams'', ''maxreaders''], CfgNum 256),
     ([''dbParams'', ''mapsize''], CfgNum 10995116277760),
     ([''dbParams'', ''noReadAhead''], CfgBool False),
     ([''events'', ''maxEventSize''], CfgNum 65536),
     ([''events'', ''rejectEventsNewerThanSeconds''], CfgNum 900),
     ([''events'', ''rejectEventsOlderThanSeconds''], CfgNum 94608000),
     ([''events'', ''rejectEphemeralEventsOlderThanSeconds''], CfgNum 60),
     ([''events'', ''ephemeralEventsLifetimeSeconds''], CfgNum 300),
     ([''events'', ''maxNumTags''], CfgNum 2000),
     ([''events'', ''maxTagValSize''], CfgNum 1024),
     ([''relay'', ''bind''], CfgStr ''127.0.0.1''),
     ([''relay'', ''port''], CfgNum 7777),
     ([''relay'', ''nofiles''], CfgNum 65536),
     ([''relay'', ''realIpHeader''], CfgStr ''x-real-ip''),
     ([''relay'', ''info'', ''name''], CfgStr (''strfry relay at '' @ HOST)),
     ([''relay'', ''info'', ''description''], CfgStr (''A strfry relay running at '' @ HOST)),
     ([''relay'', ''info'', ''pubkey''], CfgStr []),
     ([''relay'', ''info'', ''contact''], CfgStr ADMIN_EMAIL),
     ([''relay'', ''info'', ''icon''], CfgStr []),
     ([''relay'', ''info'', ''nips''], CfgStr []),
     ([''relay'', ''maxWebsocketPayloadSize''], CfgNum 131072),
     ([''relay'', ''maxReqFilterSize''], CfgNum 200),
     ([''relay'', ''autoPingSeconds''], CfgNum 55),
     ([''relay'', ''enableTcpKeepalive''], CfgBool False),
     ([''relay'', ''queryTimesliceBudgetMicroseconds''], CfgNum 10000),
     ([''relay'', ''maxFilterLimit''], CfgNum 500),
     ([''relay'', ''maxSubsPerConnection''], CfgNum 20),
     ([''relay'', ''writePolicy'', ''plugin''], CfgStr []),
     ([''relay'', ''compression'', ''enabled''], CfgBool True),
     ([''relay'', ''compression'', ''slidingWindow''], CfgBool True),
     ([''relay'', ''logging'', ''dumpInAll''], CfgBool False),
     ([''relay'', ''logging'', ''dumpInEvents''], CfgBool False),
     ([''relay'', ''logging'', ''dumpInReqs''], CfgBool False),
     ([''relay'', ''logging'', ''dbScanPerf''], CfgBool False),
     ([''relay'', ''logging'', ''invalidEvents''], CfgBool True),
     ([''relay'', ''numThreads'', ''ingester''], CfgNum 3),
     ([''relay'', ''numThreads'', ''reqWorker''], CfgNum 3),
     ([''relay'', ''numThreads'', ''reqMonitor''], CfgNum 3),
     ([''relay'', ''numThreads'', ''negentropy''], CfgNum 2),
     ([''relay'', ''negentropy'', ''enabled''], CfgBool True),
     ([''relay'', ''negentropy'', ''maxSyncEvents''], CfgNum 1000000)]"

text \<open>The value the file gives to the setting at a path, if it has the setting.\<close>

fun cfg_get :: "(string list \<times> cfg_value) list \<Rightarrow> string list \<Rightarrow> cfg_value option" where
  "cfg_get [] path = None"
| "cfg_get ((p, v) # rest) path = (if p = path then Some v else cfg_get rest path)"

section \<open>Connection state: the subscription cap\<close>

text \<open>
  Modelled from the spec: the source of the connection state and of the code that opens
  and closes subscriptions is not at hand. Section 2 gives a connection its open
  subscriptions and a per-connection cap; section 4.6 says that if a connection attempts
  to open more than \<open>maxSubsPerConnection\<close>, the newest is rejected with a notice; section 9
  says that a \<open>REQ\<close> under a subscription id already open implicitly closes the prior
  subscription first; \<open>CLOSE\<close> destroys the subscription. A subscription is its id and its
  filter group, and the cap is the parameter \<open>maxSubs\<close>.
\<close>

datatype 'f client_msg = REQ string 'f | CLOSE string

datatype req_reply = Opened | Rejected_with_notice

definition close_sub :: "string \<Rightarrow> (string \<times> 'f) list \<Rightarrow> (string \<times> 'f) list" where
  "close_sub sid subs = filter (\<lambda>(s, f). s \<noteq> sid) subs"

definition open_sub ::
  "nat \<Rightarrow> string \<Rightarrow> 'f \<Rightarrow> (string \<times> 'f) list \<Rightarrow> req_reply \<times> (string \<times> 'f) list" where
  "open_sub maxSubs sid f subs =
     (let subs' = close_sub sid subs
      in if length subs' + 1 > maxSubs then (Rejected_with_notice, subs')
         else (Opened, subs' @ [(sid, f)]))"

fun conn_step :: "nat \<Rightarrow> 'f client_msg \<Rightarrow> (string \<times> 'f) list \<Rightarrow> (string \<times> 'f) list" where
  "conn_step maxSubs (REQ sid f) subs = snd (open_sub maxSubs sid f subs)"
| "conn_step maxSubs (CLOSE sid) subs = close_sub sid subs"

text \<open>The open subscriptions of a connection after the messages it sent, from none open.\<close>

fun conn_run :: "nat \<Rightarrow> 'f client_msg list \<Rightarrow> (string \<times> 'f) list \<Rightarrow> (string \<times> 'f) list" where
  "conn_run maxSubs [] subs = subs"
| "conn_run maxSubs (m # ms) subs = conn_run maxSubs ms (conn_step maxSubs m subs)"

section \<open>EventStore: quadID allocation\<close>

text \<open>
  Modelled from the spec: the source of the EventStore and of the Writer is not at hand.
  Sections 3, 4.2 and 4.4 give the event, the kind classes, the algorithm of \<open>install\<close> and
  the Writer's commit. The secondary indices are functions of the primary table and are
  represented by searches of it. A quadID is a 64-bit integer (section 3), unsigned as the
  \<^verbatim>\<open>uint64_t latestEventId\<close> it is compared with; the spec gives \<open>lastQuadID + 1\<close> and
  names no other behaviour at the upper end, so the addition is that of 64-bit unsigned
  arithmetic, which wraps from \<open>2^64 - 1\<close> to \<open>0\<close>.
\<close>

record event =
  event_id :: string
  pubkey :: string
  created_at :: int
  kind :: nat
  tags :: "string list list"
  content :: string
  sig :: string

definition is_replaceable :: "nat \<Rightarrow> bool" where
  "is_replaceable k \<longleftrightarrow> k = 0 \<or> k = 3 \<or> (10000 \<le> k \<and> k \<le> 19999)"

definition is_param_replaceable :: "nat \<Rightarrow> bool" where
  "is_param_replaceable k \<longleftrightarrow> 30000 \<le> k \<and> k \<le> 39999"

definition is_ephemeral :: "nat \<Rightarrow> bool" where
  "is_ephemeral k \<longleftrightarrow> 20000 \<le> k \<and> k \<le> 29999"

text \<open>The first value of the first tag with letter \<open>d\<close>, the empty string if absent.\<close>

fun d_tag_value :: "string list list \<Rightarrow> string" where
  "d_tag_value [] = []"
| "d_tag_value ([] # ts) = d_tag_value ts"
| "d_tag_value ([name] # ts) = (if name = ''d'' then [] else d_tag_value ts)"
| "d_tag_value ((name # v # vs) # ts) = (if name = ''d'' then v else d_tag_value ts)"

text \<open>The events an \<open>e\<close>-tag names.\<close>

fun e_tag_values :: "string list list \<Rightarrow> string list" where
  "e_tag_values [] = []"
| "e_tag_values ((name # v # vs) # ts) =
     (if name = ''e'' then v # e_tag_values ts else e_tag_values ts)"
| "e_tag_values (t # ts) = e_tag_values ts"

text \<open>The key of the \<open>replaceable\<close> index: \<open>(pubkey, kind)\<close> or \<open>(pubkey, kind, d-value)\<close>.\<close>

definition replaceable_key :: "event \<Rightarrow> string \<times> nat \<times> string option" where
  "replaceable_key ev =
     (pubkey ev, kind ev,
      if is_param_replaceable (kind ev) then Some (d_tag_value (tags ev)) else None)"

record store =
  lastQuadID :: "64 word"
  primary :: "(64 word \<times> event) list"

datatype outcome =
  Stored "64 word" | Duplicate | Replaced "64 word" | Shadowed | Rejected string

text \<open>
  Steps 3 to 5 of \<open>install\<close>: allocate \<open>quadID = lastQuadID + 1\<close> in 64-bit unsigned
  arithmetic, insert the row (ephemeral kinds skip the insertion), and return the outcome. A deletion event (kind 5) removes the
  prior events its \<open>e\<close>-tags name that have its own pubkey, and is itself stored.
\<close>

definition allocate_and_insert :: "bool \<Rightarrow> event \<Rightarrow> store \<Rightarrow> outcome \<times> store" where
  "allocate_and_insert replaced ev s =
     (let quadID = lastQuadID s + 1;
          rows = (if kind ev = 5
                  then filter (\<lambda>(q, e). \<not> (event_id e \<in> set (e_tag_values (tags ev))
                                              \<and> pubkey e = pubkey ev)) (primary s)
                  else primary s);
          rows = (if is_ephemeral (kind ev) then rows else rows @ [(quadID, ev)])
      in (if replaced then Replaced quadID else Stored quadID,
          s \<lparr> lastQuadID := quadID, primary := rows \<rparr>))"

text \<open>
  The existing winner \<open>w\<close> shadows the event: its \<open>created_at\<close> is greater, or equal with
  the lexicographically greater id.
\<close>

definition shadowed_by :: "event \<Rightarrow> event \<Rightarrow> bool" where
  "shadowed_by ev w \<longleftrightarrow>
     created_at w > created_at ev \<or> (created_at w = created_at ev \<and> event_id w > event_id ev)"

text \<open>
  \<open>install\<close>, steps 1 and 2: a known id is a duplicate; for a replaceable or parameterised
  replaceable kind the existing winner either shadows the event or is deleted as the loser.
\<close>

definition install :: "event \<Rightarrow> store \<Rightarrow> outcome \<times> store" where
  "install ev s =
     (if list_ex (\<lambda>(q, e). event_id e = event_id ev) (primary s) then (Duplicate, s)
      else if is_replaceable (kind ev) \<or> is_param_replaceable (kind ev) then
        (case find (\<lambda>(q, w). replaceable_key w = replaceable_key ev) (primary s) of
           None \<Rightarrow> allocate_and_insert False ev s
         | Some (wq, w) \<Rightarrow>
             if shadowed_by ev w then (Shadowed, s)
             else allocate_and_insert True ev
                    (s \<lparr> primary := filter (\<lambda>(q, e). q \<noteq> wq) (primary s) \<rparr>))
      else allocate_and_insert False ev s)"

text \<open>
  One commit of the Writer: \<open>install\<close> for each event of the batch in turn, inside one
  transaction; the outcomes are collected in order.
\<close>

fun commit :: "event list \<Rightarrow> store \<Rightarrow> outcome list \<times> store" where
  "commit [] s = ([], s)"
| "commit (ev # evs) s =
     (let (out, s') = install ev s; (outs, s'') = commit evs s' in (out # outs, s''))"

text \<open>A sequence of commits; the outcomes of all of them, in commit order.\<close>

fun commits :: "event list list \<Rightarrow> store \<Rightarrow> outcome list \<times> store" where
  "commits [] s = ([], s)"
| "commits (batch # batches) s =
     (let (outs, s') = commit batch s; (outs', s'') = commits batches s' in (outs @ outs', s''))"

text \<open>The quadIDs the outcomes assigned, in order.\<close>

fun assigned_quadIDs :: "outcome list \<Rightarrow> 64 word list" where
  "assigned_quadIDs [] = []"
| "assigned_quadIDs (Stored q # outs) = q # assigned_quadIDs outs"
| "assigned_quadIDs (Replaced q # outs) = q # assigned_quadIDs outs"
| "assigned_quadIDs (out # outs) = assigned_quadIDs outs"

subsection \<open>Facts about the constructor\<close>

lemma of_char_int_range: "0 \<le> (of_char c :: int) \<and> (of_char c :: int) < 256"
proof -
  have "(of_char c :: int) = int (of_char c :: nat)"
    by (simp add: of_nat_of_char)
  moreover have "(of_char c :: nat) < 256"
    by simp
  ultimately show ?thesis
    by simp
qed

lemma of_char_int_nat: "(of_char c :: int) = int (of_char c :: nat)"
  by (simp add: of_nat_of_char)

lemma badChar_iff: "badChar char_signed c \<longleftrightarrow> \<not> allowed_byte c"
proof -
  define n where "n = (of_char c :: nat)"
  have bound: "n < 256"
    by (simp add: n_def)
  have promoted: "(of_char c :: int) = int n"
    by (simp add: n_def of_nat_of_char)
  have "badChar char_signed c \<longleftrightarrow>
      (if char_signed \<and> 128 \<le> n then int n - 256 else int n) < 0x20
      \<or> c = CHR 0x5C \<or> c = CHR 0x22
      \<or> (if char_signed \<and> 128 \<le> n then int n - 256 else int n) \<ge> 0x7F"
    by (simp add: badChar_def char_value_def promoted)
  moreover have "allowed_byte c \<longleftrightarrow> 0x20 \<le> n \<and> n \<le> 0x7E \<and> c \<noteq> CHR 0x22 \<and> c \<noteq> CHR 0x5C"
    by (simp add: allowed_byte_def n_def)
  ultimately show ?thesis
    using bound by auto
qed

lemma SubId_ctor_Inr_iff:
  "(\<exists>sid. SubId_ctor char_signed mem val = Inr sid) \<longleftrightarrow>
     1 \<le> length val \<and> length val \<le> 64 \<and> (\<forall>c\<in>set val. allowed_byte c)"
  by (cases val) (auto simp: SubId_ctor_def MAX_SUBID_SIZE_def list_ex_iff badChar_iff)

lemma SubId_ctor_Inl_iff:
  "(\<exists>e. SubId_ctor char_signed mem val = Inl e) \<longleftrightarrow>
     \<not> (1 \<le> length val \<and> length val \<le> 64 \<and> (\<forall>c\<in>set val. allowed_byte c))"
proof -
  have "(\<exists>e. SubId_ctor char_signed mem val = Inl e) \<longleftrightarrow>
      \<not> (\<exists>sid. SubId_ctor char_signed mem val = Inr sid)"
    by (cases "SubId_ctor char_signed mem val") simp_all
  then show ?thesis
    by (simp only: SubId_ctor_Inr_iff)
qed

lemma size_t_of_char_small:
  assumes "n \<le> 64"
  shows "size_t_of_char char_signed (char_of_size_t n) = n"
proof -
  have "(of_char (char_of_size_t n) :: int) = int n"
    using assms by (simp add: char_of_size_t_def of_char_int_nat)
  then show ?thesis
    using assms by (simp add: size_t_of_char_def char_value_def)
qed

lemma SubId_ctor_buf:
  assumes "SubId_ctor char_signed mem val = Inr sid" and "length mem = MAX_SUBID_SIZE + 1"
  shows "buf sid = char_of_size_t (length val) # val @ drop (1 + length val) mem"
proof -
  from assms(2) obtain m ms where mem: "mem = m # ms"
    by (cases mem) simp_all
  from assms(1) have "buf sid = memcpy (mem[0 := char_of_size_t (length val)]) 1 val"
    by (auto simp: SubId_ctor_def split: if_splits)
  then show ?thesis
    by (simp add: memcpy_def mem)
qed

lemma SubId_ctor_length:
  assumes "SubId_ctor char_signed mem val = Inr sid"
  shows "1 \<le> length val \<and> length val \<le> 64"
  using SubId_ctor_Inr_iff [of char_signed mem val] assms by blast

lemma SubId_ctor_sv:
  assumes "SubId_ctor char_signed mem val = Inr sid" and "length mem = MAX_SUBID_SIZE + 1"
  shows "sv char_signed sid = val"
proof -
  have len: "length val \<le> 64"
    using SubId_ctor_length [OF assms(1)] by simp
  show ?thesis
    by (simp add: sv_def SubId_ctor_buf [OF assms] size_t_of_char_small [OF len])
qed

lemma SubId_ctor_in_bounds:
  assumes "SubId_ctor char_signed mem val = Inr sid" and "length mem = MAX_SUBID_SIZE + 1"
  shows "length (buf sid) = MAX_SUBID_SIZE + 1
    \<and> 1 + size_t_of_char char_signed (buf sid ! 0) \<le> length (buf sid)"
proof -
  have len: "length val \<le> 64"
    using SubId_ctor_length [OF assms(1)] by simp
  show ?thesis
    using len assms(2)
    by (simp add: SubId_ctor_buf [OF assms] size_t_of_char_small [OF len] MAX_SUBID_SIZE_def)
qed

lemma SubId_ctor_example:
  "\<exists>sid. SubId_ctor char_signed mem ''s1'' = Inr sid"
  by (simp add: SubId_ctor_Inr_iff allowed_byte_def)

subsection \<open>Facts about the map and the counters\<close>

lemma std_map_find_None_iff: "std_map_find k m = None \<longleftrightarrow> k \<notin> fst ` set m"
  by (induction m) (auto split: if_splits)

lemma std_map_subscript_keys:
  "fst ` set (std_map_subscript k d m) = insert k (fst ` set m)"
proof (induction m)
  case Nil
  show ?case by simp
next
  case (Cons p ps)
  obtain a b where p: "p = (a, b)" by (cases p)
  consider "k < a" | "k = a" | "a < k"
    using less_linear by blast
  then show ?case
  proof cases
    case 1
    then show ?thesis by (simp add: p)
  next
    case 2
    then show ?thesis by (simp add: p)
  next
    case 3
    then have "std_map_subscript k d (p # ps) = (a, b) # std_map_subscript k d ps"
      by (auto simp: p)
    then show ?thesis
      by (simp add: p Cons.IH insert_commute)
  qed
qed

lemma std_map_subscript_sorted:
  "sorted_wrt (<) (map fst m) \<Longrightarrow> sorted_wrt (<) (map fst (std_map_subscript k d m))"
proof (induction m)
  case Nil
  then show ?case by simp
next
  case (Cons p ps)
  obtain a b where p: "p = (a, b)" by (cases p)
  have tail: "sorted_wrt (<) (map fst (std_map_subscript k d ps))"
    using Cons by simp
  have above: "\<forall>x\<in>set (map fst ps). a < x"
    using Cons.prems by (simp add: p)
  show ?case
  proof (cases "k < a")
    case True
    with Cons.prems above show ?thesis
      by (auto simp: p)
  next
    case False
    show ?thesis
    proof (cases "k = a")
      case True
      with Cons.prems show ?thesis
        by (simp add: p)
    next
      case False
      with \<open>\<not> k < a\<close> have "a < k"
        by simp
      with above have "\<forall>x\<in>set (map fst (std_map_subscript k d ps)). a < x"
        by (simp add: std_map_subscript_keys)
      with tail False \<open>\<not> k < a\<close> show ?thesis
        by (simp add: p)
    qed
  qed
qed

lemma std_map_modify_keys: "map fst (std_map_modify k f m) = map fst m"
  by (induction m) auto

lemma std_map_find_modify:
  "std_map_find k' (std_map_modify k f m) =
     (if k' = k then map_option f (std_map_find k m) else std_map_find k' m)"
  by (induction m) auto

lemma std_map_find_subscript:
  "sorted_wrt (<) (map fst m) \<Longrightarrow>
   std_map_find k' (std_map_subscript k d m) =
     (if k' = k \<and> std_map_find k m = None then Some d else std_map_find k' m)"
proof (induction m)
  case Nil
  then show ?case by simp
next
  case (Cons p ps)
  obtain a b where p: "p = (a, b)" by (cases p)
  have absent: "std_map_find k ps = None" if "k < a"
    using that Cons.prems by (auto simp: std_map_find_None_iff p)
  from Cons absent show ?case
    by (auto simp: p)
qed

lemma LabeledCounter_inc_sorted:
  "sorted_wrt (<) (map fst (counters lc)) \<Longrightarrow>
   sorted_wrt (<) (map fst (counters (LabeledCounter_inc lc label n)))"
  by (simp add: LabeledCounter_inc_def std_map_modify_keys std_map_subscript_sorted
      split: option.splits)

lemma LabeledCounter_inc_find:
  assumes "sorted_wrt (<) (map fst (counters lc))"
  shows "std_map_find l (counters (LabeledCounter_inc lc label n)) =
     (if l = label
      then Some (Counter_inc (case std_map_find label (counters lc) of
                                None \<Rightarrow> Counter_init | Some c \<Rightarrow> c) n)
      else std_map_find l (counters lc))"
  using assms
  by (simp add: LabeledCounter_inc_def std_map_find_modify std_map_find_subscript
      split: option.splits)

lemma inc_all_sorted:
  "sorted_wrt (<) (map fst (counters lc)) \<Longrightarrow>
   sorted_wrt (<) (map fst (counters (inc_all incs lc)))"
  by (induction incs lc rule: inc_all.induct) (simp_all add: LabeledCounter_inc_sorted)

lemma inc_all_find:
  "sorted_wrt (<) (map fst (counters lc)) \<Longrightarrow>
   std_map_find l (counters (inc_all incs lc)) =
     (if l \<in> fst ` set incs \<or> std_map_find l (counters lc) \<noteq> None
      then Some \<lparr> counter_value =
        (case std_map_find l (counters lc) of None \<Rightarrow> 0 | Some c \<Rightarrow> counter_value c)
          + label_total incs l \<rparr>
      else None)"
proof (induction incs lc rule: inc_all.induct)
  case (1 lc)
  then show ?case by (auto simp: label_total_def)
next
  case (2 label n incs lc)
  have sorted': "sorted_wrt (<) (map fst (counters (LabeledCounter_inc lc label n)))"
    using "2.prems" by (rule LabeledCounter_inc_sorted)
  show ?case
    using "2.IH" [OF sorted'] "2.prems"
    by (auto simp: LabeledCounter_inc_find label_total_def Counter_inc_def Counter_init_def
        split: option.splits)
qed

lemma std_map_subscript_append:
  "\<forall>x\<in>fst ` set m. x < k \<Longrightarrow> std_map_subscript k d m = m @ [(k, d)]"
  by (induction m) auto

lemma std_map_modify_append:
  "k \<notin> fst ` set m \<Longrightarrow> std_map_modify k f (m @ [(k, d)]) = m @ [(k, f d)]"
  by (induction m) auto

lemma getAll_fold:
  "sorted_wrt (<) (map fst (pre @ rest)) \<Longrightarrow>
   fold (\<lambda>(label, counter) result.
           std_map_modify label (\<lambda>_. Counter_get counter) (std_map_subscript label 0 result))
        rest (map (\<lambda>(l, c). (l, Counter_get c)) pre)
   = map (\<lambda>(l, c). (l, Counter_get c)) (pre @ rest)"
proof (induction rest arbitrary: pre)
  case Nil
  show ?case by simp
next
  case (Cons p rest)
  obtain l c where p: "p = (l, c)" by (cases p)
  let ?g = "\<lambda>(l, c). (l, Counter_get c)"
  have below: "\<forall>x\<in>fst ` set (map ?g pre). x < l"
    using Cons.prems by (auto simp: p sorted_wrt_append)
  then have fresh: "l \<notin> fst ` set (map ?g pre)"
    by auto
  have step: "std_map_modify l (\<lambda>_. Counter_get c) (std_map_subscript l 0 (map ?g pre))
      = map ?g (pre @ [(l, c)])"
    by (simp add: std_map_subscript_append [OF below] std_map_modify_append [OF fresh])
  have "sorted_wrt (<) (map fst ((pre @ [(l, c)]) @ rest))"
    using Cons.prems by (simp add: p)
  from Cons.IH [OF this] show ?case
    by (simp add: p step)
qed

lemma LabeledCounter_getAll_sorted_map:
  assumes "sorted_wrt (<) (map fst (counters lc))"
  shows "LabeledCounter_getAll lc = map (\<lambda>(l, c). (l, Counter_get c)) (counters lc)"
  using getAll_fold [of "[]" "counters lc"] assms
  by (simp add: LabeledCounter_getAll_def)

lemma fold_emit_sample:
  "fold (emit_sample name key) kvs out
     = out @ concat (map (\<lambda>(label, count). sample_line name key label count) kvs)"
  by (induction kvs arbitrary: out) (auto simp: emit_sample_def sample_line_def)

lemma std_map_by_keys:
  "distinct (map fst m) \<Longrightarrow> m = map (\<lambda>k. (k, the (std_map_find k m))) (map fst m)"
proof (induction m)
  case Nil
  show ?case by simp
next
  case (Cons p ps)
  obtain a b where p: "p = (a, b)" by (cases p)
  from Cons.prems have "a \<notin> fst ` set ps" and "distinct (map fst ps)"
    by (simp_all add: p)
  then have "map (\<lambda>k. (k, the (std_map_find k (p # ps)))) (map fst ps)
      = map (\<lambda>k. (k, the (std_map_find k ps))) (map fst ps)"
    by (auto simp: p)
  with Cons.IH [OF \<open>distinct (map fst ps)\<close>] show ?case
    by (simp add: p)
qed

lemma strict_sorted_keys_unique:
  fixes ks :: "'a::linorder list"
  assumes "sorted_wrt (<) ks" and "set ks = A"
  shows "ks = sorted_list_of_set A"
proof -
  have "sorted ks" and "distinct ks"
    using assms(1) strict_sorted_iff by auto
  then have "sorted_list_of_set (set ks) = ks"
    by (rule sorted_list_of_set.idem_if_sorted_distinct)
  with assms(2) show ?thesis
    by simp
qed

lemma unat_sum_list_word:
  "unat (sum_list (ws :: 64 word list)) = sum_list (map unat ws) mod 2 ^ 64"
proof (induction ws)
  case Nil
  show ?case by simp
next
  case (Cons w ws)
  have "unat (w + sum_list ws) = (unat w + unat (sum_list ws)) mod 2 ^ 64"
    by (simp add: unat_word_ariths)
  also have "\<dots> = (unat w + sum_list (map unat ws)) mod 2 ^ 64"
    by (simp add: Cons.IH mod_add_right_eq)
  finally show ?case by simp
qed

lemma getAll_inc_all:
  "LabeledCounter_getAll (inc_all incs LabeledCounter_init)
     = map (\<lambda>label. (label, label_total incs label)) (sorted_list_of_set (fst ` set incs))"
proof -
  let ?lc = "inc_all incs LabeledCounter_init"
  let ?m = "LabeledCounter_getAll ?lc"
  have init: "sorted_wrt (<) (map fst (counters LabeledCounter_init))"
    by (simp add: LabeledCounter_init_def)
  have sorted_cs: "sorted_wrt (<) (map fst (counters ?lc))"
    by (rule inc_all_sorted [OF init])
  have find_cs: "std_map_find l (counters ?lc) =
      (if l \<in> fst ` set incs then Some \<lparr> counter_value = label_total incs l \<rparr> else None)" for l
    using inc_all_find [OF init, of l incs] by (simp add: LabeledCounter_init_def)
  have m: "?m = map (\<lambda>(l, c). (l, Counter_get c)) (counters ?lc)"
    by (rule LabeledCounter_getAll_sorted_map [OF sorted_cs])
  have keys_m: "map fst ?m = map fst (counters ?lc)"
    by (simp add: m comp_def case_prod_beta)
  have "set (map fst (counters ?lc)) = fst ` set incs"
  proof -
    have "l \<in> fst ` set (counters ?lc) \<longleftrightarrow> l \<in> fst ` set incs" for l
      using find_cs [of l] std_map_find_None_iff [of l "counters ?lc"] by (auto split: if_splits)
    then show ?thesis by auto
  qed
  with sorted_cs have keys: "map fst (counters ?lc) = sorted_list_of_set (fst ` set incs)"
    by (rule strict_sorted_keys_unique)
  have distinct_cs: "distinct (map fst (counters ?lc))"
    using sorted_cs strict_sorted_iff by auto
  have "counters ?lc = map (\<lambda>k. (k, the (std_map_find k (counters ?lc)))) (map fst (counters ?lc))"
    by (rule std_map_by_keys [OF distinct_cs])
  also have "\<dots> = map (\<lambda>k. (k, \<lparr> counter_value = label_total incs k \<rparr>))
      (sorted_list_of_set (fst ` set incs))"
    unfolding keys by (rule map_cong) (simp_all add: find_cs)
  finally have cs: "counters ?lc = map (\<lambda>k. (k, \<lparr> counter_value = label_total incs k \<rparr>))
      (sorted_list_of_set (fst ` set incs))" .
  show ?thesis
    unfolding m by (subst cs) (simp add: comp_def Counter_get_def)
qed

subsection \<open>Facts about the text rendered and the singleton\<close>

lemma std_map_find_by_keys:
  "std_map_find k (map (\<lambda>l. (l, f l)) ks) = (if k \<in> set ks then Some (f k) else None)"
  by (induction ks) auto

lemma label_total_unat:
  "unat (label_total incs label)
     = sum_list (map (\<lambda>(l, n). unat n) (filter (\<lambda>(l, n). l = label) incs)) mod 2 ^ 64"
proof -
  have "map unat (map snd xs) = map (\<lambda>(l, n). unat n) xs" for xs :: "(string \<times> 64 word) list"
    by (induction xs) auto
  then show ?thesis
    by (simp add: label_total_def unat_sum_list_word del: map_map)
qed

lemma run_calls_client:
  "nostrClientMessages (run_calls calls pm) = inc_all (client_incs calls) (nostrClientMessages pm)"
proof (induction calls pm rule: run_calls.induct)
  case (1 pm)
  show ?case by simp
next
  case (2 c cs pm)
  then show ?case by (cases c) simp_all
qed

lemma run_calls_relay:
  "nostrRelayMessages (run_calls calls pm) = inc_all (relay_incs calls) (nostrRelayMessages pm)"
proof (induction calls pm rule: run_calls.induct)
  case (1 pm)
  show ?case by simp
next
  case (2 c cs pm)
  then show ?case by (cases c) simp_all
qed

lemma run_calls_event:
  "nostrEventsByKind (run_calls calls pm) = inc_all (event_incs calls) (nostrEventsByKind pm)"
proof (induction calls pm rule: run_calls.induct)
  case (1 pm)
  show ?case by simp
next
  case (2 c cs pm)
  then show ?case by (cases c) simp_all
qed

lemma family_text_samples:
  "family_text name help key incs =
     ''# HELP '' @ name @ '' '' @ help @ [CHR 0x0A]
     @ ''# TYPE '' @ name @ '' counter'' @ [CHR 0x0A]
     @ concat (map (\<lambda>(label, count). sample_line name key label count)
         (LabeledCounter_getAll (inc_all incs LabeledCounter_init)))"
  by (simp add: family_text_def family_labels_def getAll_inc_all comp_def)

lemma getInstance_constructed: "instance_constructed (getInstance p)"
  by (simp add: getInstance_def)

lemma getInstance_idem: "getInstance (getInstance p) = getInstance p"
  by (simp add: getInstance_def)

lemma on_instance_constructed: "instance_constructed (on_instance m p)"
  by (simp add: on_instance_def Let_def getInstance_def)

lemma process_calls_storage:
  "instance_constructed p \<Longrightarrow>
   instance_storage (process_calls calls p) = run_calls calls (instance_storage p)
   \<and> instance_constructed (process_calls calls p)"
proof (induction calls p rule: process_calls.induct)
  case (1 p)
  then show ?case by simp
next
  case (2 c cs p)
  have step: "on_instance (apply_call c) p = p \<lparr> instance_storage := apply_call c (instance_storage p) \<rparr>"
    using "2.prems" by (simp add: on_instance_def getInstance_def)
  from "2.IH" [OF on_instance_constructed] show ?case
    by (simp add: step)
qed


lemma on_instance_getInstance: "on_instance m (getInstance p) = on_instance m p"
  by (simp add: on_instance_def getInstance_idem)

lemma getInstance_process_calls:
  "getInstance (process_calls calls p) = process_calls calls (getInstance p)"
proof (induction calls p rule: process_calls.induct)
  case (1 p)
  show ?case by simp
next
  case (2 c cs p)
  have made: "instance_constructed (on_instance (apply_call c) p)"
    by (rule on_instance_constructed)
  then have "getInstance (on_instance (apply_call c) p) = on_instance (apply_call c) p"
    by (simp add: getInstance_def)
  with "2.IH" show ?case
    by (simp add: on_instance_getInstance)
qed

lemma family_labels_ascending:
  "sorted_wrt (<) (family_labels incs) \<and> distinct (family_labels incs)
   \<and> set (family_labels incs) = fst ` set incs"
  by (simp add: family_labels_def)

subsection \<open>Facts about the subscription cap and the quadIDs\<close>

lemma maxSubs_default:
  "cfg_get (strfry_conf HOST ADMIN_EMAIL) [''relay'', ''maxSubsPerConnection''] = Some (CfgNum 20)"
  by (simp add: strfry_conf_def)

lemma close_sub_length: "length (close_sub sid subs) \<le> length subs"
  by (simp add: close_sub_def)

lemma close_sub_same:
  "length (close_sub sid subs) = length subs \<Longrightarrow> close_sub sid subs = subs"
  unfolding close_sub_def by (metis filter_True length_filter_less linorder_not_le order_refl)

lemma open_sub_bound:
  "length subs \<le> maxSubs \<Longrightarrow> length (snd (open_sub maxSubs sid f subs)) \<le> maxSubs"
  using close_sub_length [of sid subs]
  by (auto simp: open_sub_def Let_def)

lemma conn_step_bound:
  "length subs \<le> maxSubs \<Longrightarrow> length (conn_step maxSubs m subs) \<le> maxSubs"
  using close_sub_length [of _ subs]
  by (cases m) (auto simp: open_sub_bound intro: order_trans)

lemma conn_run_bound:
  "length subs \<le> maxSubs \<Longrightarrow> length (conn_run maxSubs ms subs) \<le> maxSubs"
  by (induction maxSubs ms subs rule: conn_run.induct) (simp_all add: conn_step_bound)

lemma open_sub_rejected_unchanged:
  assumes "length subs \<le> maxSubs" and "open_sub maxSubs sid f subs = (Rejected_with_notice, subs')"
  shows "subs' = subs \<and> length subs = maxSubs \<and> sid \<notin> fst ` set subs"
proof -
  from assms(2) have full: "length (close_sub sid subs) + 1 > maxSubs" and res: "subs' = close_sub sid subs"
    by (auto simp: open_sub_def Let_def split: if_splits)
  with assms(1) close_sub_length [of sid subs] have len: "length (close_sub sid subs) = length subs"
    by simp
  then have same: "close_sub sid subs = subs"
    by (rule close_sub_same)
  have "sid \<notin> fst ` set subs"
  proof
    assume "sid \<in> fst ` set subs"
    then obtain f' where "(sid, f') \<in> set subs" by auto
    moreover have "(sid, f') \<notin> set (close_sub sid subs)"
      by (simp add: close_sub_def)
    ultimately show False using same by simp
  qed
  with res same len full assms(1) show ?thesis by simp
qed

lemma open_sub_rejects:
  assumes "length subs = maxSubs" and "sid \<notin> fst ` set subs"
  shows "open_sub maxSubs sid f subs = (Rejected_with_notice, subs)"
proof -
  have "close_sub sid subs = subs"
    using assms(2) unfolding close_sub_def by (induction subs) auto
  then show ?thesis
    using assms(1) by (simp add: open_sub_def Let_def)
qed

lemma allocate_quadID:
  "allocate_and_insert r ev s = (out, s') \<Longrightarrow>
   assigned_quadIDs [out] = [lastQuadID s + 1] \<and> lastQuadID s' = lastQuadID s + 1"
  by (auto simp: allocate_and_insert_def Let_def split: if_splits)

lemma install_cases:
  "install ev s = (Duplicate, s) \<or> install ev s = (Shadowed, s)
   \<or> (\<exists>r rows. install ev s = allocate_and_insert r ev (s \<lparr> primary := rows \<rparr>))"
proof (cases "list_ex (\<lambda>(q, e). event_id e = event_id ev) (primary s)")
  case True
  then show ?thesis
    by (simp add: install_def)
next
  case known: False
  have plain: "\<exists>r rows. allocate_and_insert False ev s
      = allocate_and_insert r ev (s \<lparr> primary := rows \<rparr>)"
  proof -
    have "allocate_and_insert False ev s
        = allocate_and_insert False ev (s \<lparr> primary := primary s \<rparr>)"
      by simp
    then show ?thesis by blast
  qed
  show ?thesis
  proof (cases "is_replaceable (kind ev) \<or> is_param_replaceable (kind ev)")
    case False
    with known have "install ev s = allocate_and_insert False ev s"
      by (simp add: install_def)
    with plain show ?thesis by simp
  next
    case repl: True
    show ?thesis
    proof (cases "find (\<lambda>(q, w). replaceable_key w = replaceable_key ev) (primary s)")
      case None
      with known repl have "install ev s = allocate_and_insert False ev s"
        by (simp add: install_def)
      with plain show ?thesis by simp
    next
      case (Some row)
      obtain wq w where row: "row = (wq, w)" by (cases row)
      show ?thesis
      proof (cases "shadowed_by ev w")
        case True
        with known repl Some row have "install ev s = (Shadowed, s)"
          by (simp add: install_def)
        then show ?thesis by simp
      next
        case False
        with known repl Some row have "install ev s = allocate_and_insert True ev
            (s \<lparr> primary := filter (\<lambda>(q, e). q \<noteq> wq) (primary s) \<rparr>)"
          by (simp add: install_def)
        then show ?thesis by blast
      qed
    qed
  qed
qed

lemma install_quadID:
  assumes "install ev s = (out, s')"
  shows "(assigned_quadIDs [out] = [] \<and> lastQuadID s' = lastQuadID s)
    \<or> (assigned_quadIDs [out] = [lastQuadID s + 1] \<and> lastQuadID s' = lastQuadID s + 1)"
proof -
  consider "install ev s = (Duplicate, s)" | "install ev s = (Shadowed, s)"
    | r rows where "install ev s = allocate_and_insert r ev (s \<lparr> primary := rows \<rparr>)"
    using install_cases [of ev s] by blast
  then show ?thesis
  proof cases
    case 1
    with assms show ?thesis by simp
  next
    case 2
    with assms show ?thesis by simp
  next
    case 3
    with assms have "allocate_and_insert r ev (s \<lparr> primary := rows \<rparr>) = (out, s')"
      by simp
    from allocate_quadID [OF this] show ?thesis by simp
  qed
qed

lemma assigned_quadIDs_Cons:
  "assigned_quadIDs (out # outs) = assigned_quadIDs [out] @ assigned_quadIDs outs"
  by (cases out) simp_all

lemma assigned_quadIDs_append:
  "assigned_quadIDs (outs @ outs') = assigned_quadIDs outs @ assigned_quadIDs outs'"
  by (induction outs rule: assigned_quadIDs.induct) simp_all

lemma unat_next_quadID:
  fixes w :: "64 word"
  assumes "unat w + 1 < 2 ^ 64"
  shows "unat (w + 1) = unat w + 1"
proof -
  have "unat w + unat (1 :: 64 word) < 2 ^ LENGTH(64)"
    using assms by simp
  then have "unat (w + 1) = unat w + unat (1 :: 64 word)"
    by (simp only: unat_add_lem)
  then show ?thesis
    by simp
qed

lemma commit_quadIDs:
  "commit evs s = (outs, s') \<Longrightarrow>
   unat (lastQuadID s) + length (assigned_quadIDs outs) < 2 ^ 64 \<Longrightarrow>
   sorted_wrt (<) (assigned_quadIDs outs)
   \<and> (\<forall>q\<in>set (assigned_quadIDs outs). lastQuadID s < q \<and> q \<le> lastQuadID s')
   \<and> unat (lastQuadID s') = unat (lastQuadID s) + length (assigned_quadIDs outs)"
proof (induction evs arbitrary: s outs s')
  case Nil
  then show ?case by simp
next
  case (Cons ev evs)
  obtain out s1 where i: "install ev s = (out, s1)"
    by (cases "install ev s")
  obtain outs1 s2 where c: "commit evs s1 = (outs1, s2)"
    by (cases "commit evs s1")
  from Cons.prems(1) i c have res: "outs = out # outs1" "s' = s2"
    by simp_all
  have split: "assigned_quadIDs (out # outs1) = assigned_quadIDs [out] @ assigned_quadIDs outs1"
    by (rule assigned_quadIDs_Cons)
  note room0 = Cons.prems(2) [unfolded res split]
  consider (none) "assigned_quadIDs [out] = []" "lastQuadID s1 = lastQuadID s"
    | (next_id) "assigned_quadIDs [out] = [lastQuadID s + 1]" "lastQuadID s1 = lastQuadID s + 1"
    using install_quadID [OF i] by blast
  then show ?case
  proof cases
    case none
    from room0 have "unat (lastQuadID s1) + length (assigned_quadIDs outs1) < 2 ^ 64"
      by (simp add: none)
    from Cons.IH [OF c this] show ?thesis
      unfolding res split by (simp add: none)
  next
    case next_id
    from room0 have room: "unat (lastQuadID s) + 1 + length (assigned_quadIDs outs1) < 2 ^ 64"
      by (simp add: next_id)
    then have step: "unat (lastQuadID s + 1) = unat (lastQuadID s) + 1"
      by (intro unat_next_quadID) simp
    with room have "unat (lastQuadID s1) + length (assigned_quadIDs outs1) < 2 ^ 64"
      by (simp add: next_id)
    note ih = Cons.IH [OF c this]
    have up: "lastQuadID s < lastQuadID s + 1"
      by (simp add: word_less_nat_alt step)
    have last: "unat (lastQuadID s2) = unat (lastQuadID s) + 1 + length (assigned_quadIDs outs1)"
      using ih by (simp add: next_id step)
    have top: "lastQuadID s + 1 \<le> lastQuadID s2"
      by (simp add: word_le_nat_alt step last)
    have later: "\<forall>q\<in>set (assigned_quadIDs outs1). lastQuadID s + 1 < q \<and> q \<le> lastQuadID s2"
      using ih by (simp add: next_id)
    then have above: "\<forall>q\<in>set (assigned_quadIDs outs1). lastQuadID s < q"
      using up by (auto intro: less_trans)
    from ih have "sorted_wrt (<) (assigned_quadIDs outs1)"
      by simp
    with later above up top last show ?thesis
      unfolding res split by (simp add: next_id)
  qed
qed

lemma commits_quadIDs:
  "commits batches s = (outs, s') \<Longrightarrow>
   unat (lastQuadID s) + length (assigned_quadIDs outs) < 2 ^ 64 \<Longrightarrow>
   sorted_wrt (<) (assigned_quadIDs outs)
   \<and> (\<forall>q\<in>set (assigned_quadIDs outs). lastQuadID s < q \<and> q \<le> lastQuadID s')
   \<and> unat (lastQuadID s') = unat (lastQuadID s) + length (assigned_quadIDs outs)"
proof (induction batches arbitrary: s outs s')
  case Nil
  then show ?case by simp
next
  case (Cons batch batches)
  obtain outs1 s1 where b: "commit batch s = (outs1, s1)"
    by (cases "commit batch s")
  obtain outs2 s2 where c: "commits batches s1 = (outs2, s2)"
    by (cases "commits batches s1")
  from Cons.prems(1) b c have res: "outs = outs1 @ outs2" "s' = s2"
    by simp_all
  from Cons.prems(2) have room1: "unat (lastQuadID s) + length (assigned_quadIDs outs1) < 2 ^ 64"
    by (simp add: res assigned_quadIDs_append)
  note first = commit_quadIDs [OF b room1]
  from Cons.prems(2) first
  have room2: "unat (lastQuadID s1) + length (assigned_quadIDs outs2) < 2 ^ 64"
    by (simp add: res assigned_quadIDs_append)
  note rest = Cons.IH [OF c room2]
  have mono1: "lastQuadID s \<le> lastQuadID s1"
    using first by (simp add: word_le_nat_alt)
  have mono2: "lastQuadID s1 \<le> lastQuadID s2"
    using rest by (simp add: word_le_nat_alt)
  have a: "\<forall>q\<in>set (assigned_quadIDs outs1). lastQuadID s < q \<and> q \<le> lastQuadID s2"
    using first mono2 by (auto intro: order_trans)
  have b': "\<forall>q\<in>set (assigned_quadIDs outs2). lastQuadID s < q \<and> q \<le> lastQuadID s2"
    using rest mono1 by (auto intro: le_less_trans)
  have cross: "\<forall>x\<in>set (assigned_quadIDs outs1). \<forall>y\<in>set (assigned_quadIDs outs2). x < y"
    using first rest by (auto intro: le_less_trans)
  from first rest a b' cross show ?case
    by (simp add: res assigned_quadIDs_append sorted_wrt_append ball_Un)
qed

section \<open>Results\<close>

text \<open>
  Claim C1. The \<^verbatim>\<open>SubId\<close> constructor returns a \<^verbatim>\<open>SubId\<close> exactly on the strings of 1 to 64
  bytes whose every byte lies in \<open>[0x20, 0x7E]\<close> and is neither the double quote \<open>0x22\<close>
  nor the backslash \<open>0x5C\<close>; on every other string (empty, longer than 64 bytes, or with
  a byte outside that set, \<open>0x7F\<close> and the bytes from \<open>0x80\<close> among them) it throws and
  yields no \<^verbatim>\<open>SubId\<close>. This holds whether plain \<^verbatim>\<open>char\<close> is signed or not.
\<close>

theorem SubId_ctor_succeeds_exactly:
  "((\<exists>sid. SubId_ctor char_signed mem val = Inr sid) \<longleftrightarrow>
      1 \<le> length val \<and> length val \<le> 64
      \<and> (\<forall>c\<in>set val. 0x20 \<le> (of_char c :: nat) \<and> (of_char c :: nat) \<le> 0x7E
            \<and> c \<noteq> CHR 0x22 \<and> c \<noteq> CHR 0x5C))
   \<and> ((\<exists>e. SubId_ctor char_signed mem val = Inl e) \<longleftrightarrow>
      \<not> (1 \<le> length val \<and> length val \<le> 64
      \<and> (\<forall>c\<in>set val. 0x20 \<le> (of_char c :: nat) \<and> (of_char c :: nat) \<le> 0x7E
            \<and> c \<noteq> CHR 0x22 \<and> c \<noteq> CHR 0x5C)))"
  using SubId_ctor_Inr_iff [of char_signed mem val] SubId_ctor_Inl_iff [of char_signed mem val]
  by (simp only: allowed_byte_def)

theorem SubId_ctor_succeeds_exactly_witness:
  "(\<exists>sid. SubId_ctor True (replicate 65 (CHR ''x'')) ''s1'' = Inr sid)
   \<and> (\<exists>e. SubId_ctor True (replicate 65 (CHR ''x'')) [CHR 0x7F] = Inl e)
   \<and> (\<exists>e. SubId_ctor True (replicate 65 (CHR ''x'')) [CHR 0x80] = Inl e)
   \<and> (\<exists>e. SubId_ctor False (replicate 65 (CHR ''x'')) [CHR 0x80] = Inl e)
   \<and> (\<exists>e. SubId_ctor True (replicate 65 (CHR ''x'')) [CHR 0x61, CHR 0x22] = Inl e)
   \<and> (\<exists>e. SubId_ctor True (replicate 65 (CHR ''x'')) (replicate 65 (CHR ''a'')) = Inl e)
   \<and> (\<exists>e. SubId_ctor True (replicate 65 (CHR ''x'')) [] = Inl e)"
  using SubId_ctor_succeeds_exactly [of True "replicate 65 (CHR ''x'')" "''s1''"]
    SubId_ctor_succeeds_exactly [of True "replicate 65 (CHR ''x'')" "[CHR 0x7F]"]
    SubId_ctor_succeeds_exactly [of True "replicate 65 (CHR ''x'')" "[CHR 0x80]"]
    SubId_ctor_succeeds_exactly [of False "replicate 65 (CHR ''x'')" "[CHR 0x80]"]
    SubId_ctor_succeeds_exactly [of True "replicate 65 (CHR ''x'')" "[CHR 0x61, CHR 0x22]"]
    SubId_ctor_succeeds_exactly [of True "replicate 65 (CHR ''x'')" "replicate 65 (CHR ''a'')"]
    SubId_ctor_succeeds_exactly [of True "replicate 65 (CHR ''x'')" "[]"]
  by simp

text \<open>
  Claim C2. Every newly constructed \<^verbatim>\<open>Subscription\<close> has \<^verbatim>\<open>latestEventId\<close> equal to
  \<^verbatim>\<open>MAX_U64\<close>, the largest 64-bit value \<open>2^64 - 1\<close>; hence for every quadID \<open>Q\<close> the
  ReqMonitor's test \<open>latestQuadID < Q\<close> is false at creation, and no live event is
  deliverable before the hand-off assigns \<open>latestQuadID\<close>.
\<close>

theorem Subscription_ctor_latestEventId:
  assumes "Subscription_ctor char_signed mem connId' subId' filterGroup' ipAddr' = Inr sub"
  shows "latestEventId sub = MAX_U64 \<and> unat (latestEventId sub) = 2 ^ 64 - 1
    \<and> (\<forall>Q. \<not> delivery_precondition sub Q)"
proof -
  from assms have latest: "latestEventId sub = MAX_U64"
    by (auto simp: Subscription_ctor_def split: sum.splits)
  have top: "unat MAX_U64 = 2 ^ 64 - 1"
    by (simp add: MAX_U64_def)
  have "\<not> MAX_U64 < Q" for Q
  proof -
    have "unat Q < 2 ^ 64"
      using unsigned_less [of Q, where ?'a = nat] by simp
    with top show ?thesis
      by (simp add: word_less_nat_alt)
  qed
  with latest top show ?thesis
    by (simp add: delivery_precondition_def)
qed

theorem Subscription_ctor_latestEventId_witness:
  "case Subscription_ctor True (replicate 65 (CHR ''x'')) 7 ''s1'' () [] of
     Inl e \<Rightarrow> False
   | Inr sub \<Rightarrow> latestEventId sub = MAX_U64 \<and> \<not> delivery_precondition sub 1
       \<and> \<not> delivery_precondition sub MAX_U64"
proof -
  obtain sid where "SubId_ctor True (replicate 65 (CHR ''x'')) ''s1'' = Inr sid"
    using SubId_ctor_example by blast
  then obtain sub where
    made: "Subscription_ctor True (replicate 65 (CHR ''x'')) 7 ''s1'' () [] = Inr sub"
    by (simp add: Subscription_ctor_def)
  show ?thesis
    using Subscription_ctor_latestEventId [OF made] by (simp add: made)
qed

text \<open>
  Claim C3. For every string \<open>s\<close> the \<^verbatim>\<open>SubId\<close> constructor accepts, \<^verbatim>\<open>SubId(s).sv()\<close> and
  \<^verbatim>\<open>SubId(s).str()\<close> are \<open>s\<close>; two \<^verbatim>\<open>SubId\<close> values are equal under \<^verbatim>\<open>operator==\<close> exactly
  when their decoded strings are equal, whatever the uninitialised tail of their buffers
  holds; and equal \<^verbatim>\<open>SubId\<close>s have equal \<^verbatim>\<open>std::hash<SubId>\<close> values.
\<close>

theorem SubId_round_trip:
  assumes "SubId_ctor char_signed mem1 s1 = Inr a" and "length mem1 = MAX_SUBID_SIZE + 1"
    and "SubId_ctor char_signed mem2 s2 = Inr b" and "length mem2 = MAX_SUBID_SIZE + 1"
  shows "sv char_signed a = s1 \<and> str char_signed a = s1
    \<and> (SubId_eq char_signed a b \<longleftrightarrow> s1 = s2)
    \<and> (SubId_eq char_signed a b \<longleftrightarrow> str char_signed a = str char_signed b)
    \<and> (SubId_eq char_signed a b \<longrightarrow>
          hash_SubId combine char_signed a = hash_SubId combine char_signed b)"
proof -
  have a: "sv char_signed a = s1"
    by (rule SubId_ctor_sv [OF assms(1,2)])
  have b: "sv char_signed b = s2"
    by (rule SubId_ctor_sv [OF assms(3,4)])
  show ?thesis
    by (auto simp: a b str_def SubId_eq_def hash_SubId_def)
qed

theorem SubId_round_trip_witness:
  "case (SubId_ctor True (replicate 65 (CHR ''x'')) ''s1'',
         SubId_ctor True (replicate 65 (CHR ''y'')) ''s1'') of
     (Inr a, Inr b) \<Rightarrow> sv True a = ''s1'' \<and> str True a = ''s1'' \<and> SubId_eq True a b
       \<and> hash_SubId (\<lambda>seed bytes. seed + of_nat (length bytes)) True a
         = hash_SubId (\<lambda>seed bytes. seed + of_nat (length bytes)) True b
   | _ \<Rightarrow> False"
proof -
  obtain a where a: "SubId_ctor True (replicate 65 (CHR ''x'')) ''s1'' = Inr a"
    using SubId_ctor_example by blast
  obtain b where b: "SubId_ctor True (replicate 65 (CHR ''y'')) ''s1'' = Inr b"
    using SubId_ctor_example by blast
  have len: "length (replicate 65 c) = MAX_SUBID_SIZE + 1" for c :: char
    by (simp add: MAX_SUBID_SIZE_def)
  show ?thesis
    using SubId_round_trip [OF a len b len, of "\<lambda>seed bytes. seed + of_nat (length bytes)"]
    by (simp add: a b)
qed

text \<open>
  Claim C4. \<^verbatim>\<open>PrometheusMetrics::getInstance()\<close> returns the same process-wide registry on
  every call: once a call has constructed the object, every later call finds it constructed
  and leaves the process state as it is, reads through the instance included. Increments
  made through calls of \<^verbatim>\<open>getInstance()\<close> of their own all land in that one object, and
  \<^verbatim>\<open>getAll()\<close> and \<^verbatim>\<open>render()\<close> reached through any other call observe them. The calls are
  taken one after another.
\<close>

theorem getInstance_singleton:
  "instance_constructed (getInstance p)
   \<and> getInstance (getInstance p) = getInstance p
   \<and> snd (read_instance m (getInstance p)) = getInstance p
   \<and> instance_storage (getInstance (process_calls calls p))
       = run_calls calls (instance_storage (getInstance p))
   \<and> fst (read_instance (\<lambda>pm. LabeledCounter_getAll (nostrClientMessages pm))
            (process_calls calls p))
       = LabeledCounter_getAll
           (nostrClientMessages (run_calls calls (instance_storage (getInstance p))))
   \<and> fst (read_instance render (process_calls calls p))
       = render (run_calls calls (instance_storage (getInstance p)))
   \<and> fst (read_instance (\<lambda>pm. LabeledCounter_getAll (nostrClientMessages pm))
            (PROM_INC_CLIENT_MSG verb p))
       = LabeledCounter_getAll
           (LabeledCounter_inc (nostrClientMessages (instance_storage (getInstance p))) verb 1)"
proof -
  have made: "instance_constructed (getInstance p)"
    by (rule getInstance_constructed)
  have run: "instance_storage (getInstance (process_calls cs p))
      = run_calls cs (instance_storage (getInstance p))" for cs
    using process_calls_storage [OF made, of cs] by (simp add: getInstance_process_calls)
  have one: "PROM_INC_CLIENT_MSG verb p = process_calls [ClientMsg verb 1] p"
    by (simp add: PROM_INC_CLIENT_MSG_def)
  have read: "fst (read_instance g q) = g (instance_storage (getInstance q))" for g :: "PrometheusMetrics \<Rightarrow> 'b" and q
    by (simp add: read_instance_def Let_def)
  have "fst (read_instance (\<lambda>pm. LabeledCounter_getAll (nostrClientMessages pm))
            (PROM_INC_CLIENT_MSG verb p))
       = LabeledCounter_getAll
           (LabeledCounter_inc (nostrClientMessages (instance_storage (getInstance p))) verb 1)"
    unfolding one read run by simp
  moreover have "snd (read_instance m (getInstance p)) = getInstance p"
    by (simp add: read_instance_def Let_def getInstance_idem)
  ultimately show ?thesis
    using made by (simp add: getInstance_idem read run)
qed

text \<open>
  Claim C5. For every finite sequence of \<^verbatim>\<open>inc(label, n)\<close> calls run one after another on a
  fresh \<^verbatim>\<open>LabeledCounter\<close>, \<^verbatim>\<open>getAll()\<close> returns a map whose keys are exactly the labels
  incremented, each once, and whose value at a label is the sum modulo \<open>2^64\<close> of the
  amounts passed for that label.
\<close>

theorem LabeledCounter_getAll_after_incs:
  "fst ` set (LabeledCounter_getAll (inc_all incs LabeledCounter_init)) = fst ` set incs
   \<and> distinct (map fst (LabeledCounter_getAll (inc_all incs LabeledCounter_init)))
   \<and> (\<forall>label. std_map_find label (LabeledCounter_getAll (inc_all incs LabeledCounter_init)) =
         (if label \<in> fst ` set incs then Some (label_total incs label) else None))
   \<and> (\<forall>label. unat (label_total incs label) =
         sum_list (map (\<lambda>(l, n). unat n) (filter (\<lambda>(l, n). l = label) incs)) mod 2 ^ 64)"
proof -
  have fin: "finite (fst ` set incs)"
    by simp
  have keys: "map fst (LabeledCounter_getAll (inc_all incs LabeledCounter_init))
      = sorted_list_of_set (fst ` set incs)"
    by (simp add: getAll_inc_all comp_def)
  have "set (map fst (LabeledCounter_getAll (inc_all incs LabeledCounter_init))) = fst ` set incs"
    unfolding keys using fin by simp
  then have k1: "fst ` set (LabeledCounter_getAll (inc_all incs LabeledCounter_init)) = fst ` set incs"
    by simp
  have k2: "distinct (map fst (LabeledCounter_getAll (inc_all incs LabeledCounter_init)))"
    unfolding keys by simp
  have k3: "std_map_find label (LabeledCounter_getAll (inc_all incs LabeledCounter_init)) =
         (if label \<in> fst ` set incs then Some (label_total incs label) else None)" for label
    using fin by (simp add: getAll_inc_all std_map_find_by_keys)
  show ?thesis
    using k1 k2 k3 label_total_unat by blast
qed

text \<open>
  Claim C6. \<^verbatim>\<open>render()\<close> is a \<^verbatim>\<open>const\<close> member function that reads the counters through
  \<^verbatim>\<open>getAll()\<close> and writes only its own stream, so \<open>render\<close> maps the object to the text
  and leaves the object alone. Its text is determined by the counters: for each of the
  families \<open>nostr_client_messages_total\<close>, \<open>nostr_relay_messages_total\<close> and
  \<open>nostr_events_total\<close>, in this order, the family's HELP and TYPE lines and then exactly one
  sample line for each label recorded, the labels in ascending lexicographic order.
\<close>

theorem render_text:
  "render (run_calls calls PrometheusMetrics_init) =
     family_text ''nostr_client_messages_total''
       ''Total number of Nostr client messages by verb'' ''verb'' (client_incs calls)
     @ family_text ''nostr_relay_messages_total''
       ''Total number of Nostr relay messages by verb'' ''verb'' (relay_incs calls)
     @ family_text ''nostr_events_total''
       ''Total number of Nostr events by kind'' ''kind'' (event_incs calls)
   \<and> (\<forall>name help key incs. family_text name help key incs =
         ''# HELP '' @ name @ '' '' @ help @ [CHR 0x0A]
         @ ''# TYPE '' @ name @ '' counter'' @ [CHR 0x0A]
         @ concat (map (\<lambda>label. sample_line name key label (label_total incs label))
                     (family_labels incs)))
   \<and> (\<forall>incs. sorted_wrt (<) (family_labels incs) \<and> distinct (family_labels incs)
         \<and> set (family_labels incs) = fst ` set incs)"
proof -
  have c: "nostrClientMessages (run_calls calls PrometheusMetrics_init)
      = inc_all (client_incs calls) LabeledCounter_init"
    by (simp add: run_calls_client PrometheusMetrics_init_def)
  have r: "nostrRelayMessages (run_calls calls PrometheusMetrics_init)
      = inc_all (relay_incs calls) LabeledCounter_init"
    by (simp add: run_calls_relay PrometheusMetrics_init_def)
  have e: "nostrEventsByKind (run_calls calls PrometheusMetrics_init)
      = inc_all (event_incs calls) LabeledCounter_init"
    by (simp add: run_calls_event PrometheusMetrics_init_def)
  have "render (run_calls calls PrometheusMetrics_init) =
     family_text ''nostr_client_messages_total''
       ''Total number of Nostr client messages by verb'' ''verb'' (client_incs calls)
     @ family_text ''nostr_relay_messages_total''
       ''Total number of Nostr relay messages by verb'' ''verb'' (relay_incs calls)
     @ family_text ''nostr_events_total''
       ''Total number of Nostr events by kind'' ''kind'' (event_incs calls)"
    unfolding render_def Let_def c r e fold_emit_sample family_text_samples
    by simp
  then show ?thesis
    using family_labels_ascending by (simp add: family_text_def)
qed

text \<open>
  Claim C7. The configuration file deploy.sh installs has the setting
  \<open>events.ephemeralEventsLifetimeSeconds\<close>, the age past which ephemeral events are deleted
  from the database, and gives it the default of 300 seconds.
\<close>

theorem ephemeral_lifetime_default:
  "cfg_get (strfry_conf HOST ADMIN_EMAIL) [''events'', ''ephemeralEventsLifetimeSeconds'']
     = Some (CfgNum 300)"
  by (simp add: strfry_conf_def)

text \<open>
  Claim C8. The configuration file deploy.sh installs sets the worker-pool sizes under
  \<open>relay.numThreads\<close>: ingester 3, reqWorker 3, reqMonitor 3 and negentropy 2.
\<close>

theorem numThreads_defaults:
  "cfg_get (strfry_conf HOST ADMIN_EMAIL) [''relay'', ''numThreads'', ''ingester''] = Some (CfgNum 3)
   \<and> cfg_get (strfry_conf HOST ADMIN_EMAIL) [''relay'', ''numThreads'', ''reqWorker''] = Some (CfgNum 3)
   \<and> cfg_get (strfry_conf HOST ADMIN_EMAIL) [''relay'', ''numThreads'', ''reqMonitor''] = Some (CfgNum 3)
   \<and> cfg_get (strfry_conf HOST ADMIN_EMAIL) [''relay'', ''numThreads'', ''negentropy''] = Some (CfgNum 2)"
  by (simp add: strfry_conf_def)

text \<open>
  Claim C9. The default of \<open>maxSubsPerConnection\<close> is 20. Whatever a connection sends, it
  never has more than \<open>maxSubsPerConnection\<close> subscriptions open; a \<open>REQ\<close> that would open
  one more is rejected with a notice and leaves the open subscriptions as they were.
\<close>

theorem subscription_cap:
  "cfg_get (strfry_conf HOST ADMIN_EMAIL) [''relay'', ''maxSubsPerConnection''] = Some (CfgNum 20)
   \<and> length (conn_run maxSubs msgs []) \<le> maxSubs
   \<and> (length subs \<le> maxSubs \<longrightarrow> length (conn_step maxSubs msg subs) \<le> maxSubs)
   \<and> (length subs \<le> maxSubs \<and> fst (open_sub maxSubs sid f subs) = Rejected_with_notice
        \<longrightarrow> snd (open_sub maxSubs sid f subs) = subs)
   \<and> (length subs = maxSubs \<and> sid \<notin> fst ` set subs
        \<longrightarrow> open_sub maxSubs sid f subs = (Rejected_with_notice, subs))"
proof (intro conjI impI)
  show "cfg_get (strfry_conf HOST ADMIN_EMAIL) [''relay'', ''maxSubsPerConnection''] = Some (CfgNum 20)"
    by (rule maxSubs_default)
  show "length (conn_run maxSubs msgs []) \<le> maxSubs"
    by (rule conn_run_bound) simp
  show "length (conn_step maxSubs msg subs) \<le> maxSubs" if "length subs \<le> maxSubs"
    using that by (rule conn_step_bound)
  show "snd (open_sub maxSubs sid f subs) = subs"
    if "length subs \<le> maxSubs \<and> fst (open_sub maxSubs sid f subs) = Rejected_with_notice"
  proof -
    from that have bound: "length subs \<le> maxSubs"
      and "fst (open_sub maxSubs sid f subs) = Rejected_with_notice"
      by simp_all
    then have "open_sub maxSubs sid f subs
        = (Rejected_with_notice, snd (open_sub maxSubs sid f subs))"
      by (cases "open_sub maxSubs sid f subs") simp
    from open_sub_rejected_unchanged [OF bound this] show ?thesis by simp
  qed
  show "open_sub maxSubs sid f subs = (Rejected_with_notice, subs)"
    if "length subs = maxSubs \<and> sid \<notin> fst ` set subs"
    using that by (simp add: open_sub_rejects)
qed

theorem subscription_cap_witness:
  "length [(''a'', ()), (''b'', ())] \<le> (2::nat)
   \<and> open_sub 2 ''c'' () [(''a'', ()), (''b'', ())] = (Rejected_with_notice, [(''a'', ()), (''b'', ())])
   \<and> length (conn_step 2 (REQ ''b'' ()) [(''a'', ()), (''b'', ())]) \<le> 2"
  using subscription_cap [of HOST ADMIN_EMAIL 2 "[]" "[(''a'', ()), (''b'', ())]" "REQ ''b'' ()" "''c''" "()"]
  by simp

text \<open>
  Claim C10, as amended. A quadID is a 64-bit unsigned integer and each allocation is
  \<open>lastQuadID + 1\<close>. Across every sequence of commits that does not take the counter past
  \<open>2^64 - 1\<close> (the \<open>lastQuadID\<close> at the start plus the number of quadIDs assigned stays
  below \<open>2^64\<close>), the quadIDs assigned are strictly increasing in commit order: of any two,
  the later is strictly greater, so no two are equal; and all of them are greater than the
  \<open>lastQuadID\<close> the sequence started from.
\<close>

theorem quadIDs_strictly_increasing:
  assumes "unat (lastQuadID s) + length (assigned_quadIDs (fst (commits batches s))) < 2 ^ 64"
  shows "sorted_wrt (<) (assigned_quadIDs (fst (commits batches s)))
   \<and> distinct (assigned_quadIDs (fst (commits batches s)))
   \<and> (\<forall>q\<in>set (assigned_quadIDs (fst (commits batches s))). lastQuadID s < q)
   \<and> (\<forall>i j. i < j \<and> j < length (assigned_quadIDs (fst (commits batches s))) \<longrightarrow>
         assigned_quadIDs (fst (commits batches s)) ! i
           < assigned_quadIDs (fst (commits batches s)) ! j)"
proof -
  obtain outs s' where run: "commits batches s = (outs, s')"
    by (cases "commits batches s")
  from assms have room: "unat (lastQuadID s) + length (assigned_quadIDs outs) < 2 ^ 64"
    by (simp add: run)
  from commits_quadIDs [OF run room] have inc: "sorted_wrt (<) (assigned_quadIDs outs)"
    and above: "\<forall>q\<in>set (assigned_quadIDs outs). lastQuadID s < q"
    by auto
  from inc have "distinct (assigned_quadIDs outs)"
    using strict_sorted_iff by blast
  moreover from inc have "\<forall>i j. i < j \<and> j < length (assigned_quadIDs outs) \<longrightarrow>
      assigned_quadIDs outs ! i < assigned_quadIDs outs ! j"
    by (simp add: sorted_wrt_iff_nth_less)
  ultimately show ?thesis
    using inc above by (simp add: run)
qed

theorem quadIDs_strictly_increasing_witness:
  "assigned_quadIDs (fst (commits
      [[\<lparr> event_id = ''aa'', pubkey = ''p1'', created_at = 1000, kind = 1, tags = [],
          content = ''hello'', sig = ''s'' \<rparr>,
        \<lparr> event_id = ''bb'', pubkey = ''p1'', created_at = 100, kind = 0, tags = [],
          content = ''hello'', sig = ''s'' \<rparr>],
       [\<lparr> event_id = ''cc'', pubkey = ''p1'', created_at = 50, kind = 0, tags = [],
          content = ''hello'', sig = ''s'' \<rparr>,
        \<lparr> event_id = ''aa'', pubkey = ''p1'', created_at = 1000, kind = 1, tags = [],
          content = ''hello'', sig = ''s'' \<rparr>,
        \<lparr> event_id = ''dd'', pubkey = ''p1'', created_at = 150, kind = 0, tags = [],
          content = ''hello'', sig = ''s'' \<rparr>]]
      \<lparr> lastQuadID = 0, primary = [] \<rparr>)) = [1, 2, 3]
   \<and> unat (lastQuadID \<lparr> lastQuadID = 0, primary = [] \<rparr>) + length [1, 2, 3 :: 64 word] < 2 ^ 64
   \<and> sorted_wrt (<) (assigned_quadIDs (fst (commits
      [[\<lparr> event_id = ''aa'', pubkey = ''p1'', created_at = 1000, kind = 1, tags = [],
          content = ''hello'', sig = ''s'' \<rparr>,
        \<lparr> event_id = ''bb'', pubkey = ''p1'', created_at = 100, kind = 0, tags = [],
          content = ''hello'', sig = ''s'' \<rparr>],
       [\<lparr> event_id = ''cc'', pubkey = ''p1'', created_at = 50, kind = 0, tags = [],
          content = ''hello'', sig = ''s'' \<rparr>,
        \<lparr> event_id = ''aa'', pubkey = ''p1'', created_at = 1000, kind = 1, tags = [],
          content = ''hello'', sig = ''s'' \<rparr>,
        \<lparr> event_id = ''dd'', pubkey = ''p1'', created_at = 150, kind = 0, tags = [],
          content = ''hello'', sig = ''s'' \<rparr>]]
      \<lparr> lastQuadID = 0, primary = [] \<rparr>)))"
proof -
  let ?batches =
     "[[\<lparr> event_id = ''aa'', pubkey = ''p1'', created_at = 1000, kind = 1, tags = [],
          content = ''hello'', sig = ''s'' \<rparr>,
        \<lparr> event_id = ''bb'', pubkey = ''p1'', created_at = 100, kind = 0, tags = [],
          content = ''hello'', sig = ''s'' \<rparr>],
       [\<lparr> event_id = ''cc'', pubkey = ''p1'', created_at = 50, kind = 0, tags = [],
          content = ''hello'', sig = ''s'' \<rparr>,
        \<lparr> event_id = ''aa'', pubkey = ''p1'', created_at = 1000, kind = 1, tags = [],
          content = ''hello'', sig = ''s'' \<rparr>,
        \<lparr> event_id = ''dd'', pubkey = ''p1'', created_at = 150, kind = 0, tags = [],
          content = ''hello'', sig = ''s'' \<rparr>]]"
  let ?s = "\<lparr> lastQuadID = 0, primary = [] \<rparr>"
  have ids: "assigned_quadIDs (fst (commits ?batches ?s)) = [1, 2, 3]"
    by (simp add: install_def allocate_and_insert_def Let_def is_replaceable_def
        is_param_replaceable_def is_ephemeral_def replaceable_key_def shadowed_by_def)
  have room: "unat (lastQuadID ?s) + length (assigned_quadIDs (fst (commits ?batches ?s))) < 2 ^ 64"
    unfolding ids by simp
  from quadIDs_strictly_increasing [OF room] ids show ?thesis
    by simp
qed

text \<open>
  Claim C10 as stated, for every sequence of commits, fails where the 64-bit counter wraps:
  a store whose newest row has quadID \<open>2^64 - 2\<close> assigns \<open>2^64 - 1\<close> in its next commit
  and \<open>0\<close> in the one after, so the later event has the smaller quadID.
\<close>

theorem quadIDs_wrap_counterexample:
  "assigned_quadIDs (fst (commits
      [[\<lparr> event_id = ''bb'', pubkey = ''p1'', created_at = 1001, kind = 1, tags = [],
          content = ''hello'', sig = ''s'' \<rparr>],
       [\<lparr> event_id = ''cc'', pubkey = ''p1'', created_at = 1002, kind = 1, tags = [],
          content = ''hello'', sig = ''s'' \<rparr>]]
      \<lparr> lastQuadID = 0xFFFFFFFFFFFFFFFE,
        primary = [(0xFFFFFFFFFFFFFFFE,
          \<lparr> event_id = ''aa'', pubkey = ''p1'', created_at = 1000, kind = 1, tags = [],
            content = ''hello'', sig = ''s'' \<rparr>)] \<rparr>)) = [0xFFFFFFFFFFFFFFFF, 0]
   \<and> \<not> sorted_wrt (<) (assigned_quadIDs (fst (commits
      [[\<lparr> event_id = ''bb'', pubkey = ''p1'', created_at = 1001, kind = 1, tags = [],
          content = ''hello'', sig = ''s'' \<rparr>],
       [\<lparr> event_id = ''cc'', pubkey = ''p1'', created_at = 1002, kind = 1, tags = [],
          content = ''hello'', sig = ''s'' \<rparr>]]
      \<lparr> lastQuadID = 0xFFFFFFFFFFFFFFFE,
        primary = [(0xFFFFFFFFFFFFFFFE,
          \<lparr> event_id = ''aa'', pubkey = ''p1'', created_at = 1000, kind = 1, tags = [],
            content = ''hello'', sig = ''s'' \<rparr>)] \<rparr>)))"
  by (simp add: install_def allocate_and_insert_def Let_def is_replaceable_def
      is_param_replaceable_def is_ephemeral_def)

end
